theory Spec2Isabelle
  imports Main "HOL-Library.Char_ord"
begin

section \<open>Automaton model\<close>

text \<open>
  The program keeps every set in a \<^verbatim>\<open>std::set\<close>, an ordered container: its value is the
  strictly ascending sequence of its elements, which is also the order a range-based
  \<^verbatim>\<open>for\<close> visits them in. A set is therefore modelled by that ascending list, and
  \<^verbatim>\<open>insert\<close> by \<^const>\<open>insort_insert\<close> (insert in order unless already present).
  A \<^verbatim>\<open>std::map\<close> is a partial function. States are C++ \<^verbatim>\<open>int\<close>s, modelled by
  mathematical integers: the model is the program as long as the pattern has fewer than
  \<open>2^31 - 1\<close> symbols, so that the counter \<^verbatim>\<open>next\<close> stays within \<^verbatim>\<open>int\<close>. Symbols are \<^verbatim>\<open>char\<close>s; the automaton part is stated for any linearly
  ordered symbol type, so that it covers the order of \<^verbatim>\<open>char\<close> on every platform
  (signed or unsigned), and is used at type \<^typ>\<open>char\<close>.
\<close>

record 'c NFA =
  states :: "int list"
  alphabet :: "'c list"
  transitions :: "int \<rightharpoonup> ('c \<rightharpoonup> int list)"
  startState :: int
  finalStates :: "int list"

text \<open>\<^verbatim>\<open>transitions[from][symbol].insert(to)\<close>: both \<^verbatim>\<open>operator[]\<close> calls create a
  missing entry (an empty inner map, an empty set) before the insertion.\<close>

definition addTransition :: "int \<Rightarrow> 'c \<Rightarrow> int \<Rightarrow> 'c NFA \<Rightarrow> 'c NFA" where
  "addTransition from symbol to nfa =
     (let m = (case NFA.transitions nfa from of None \<Rightarrow> Map.empty | Some m \<Rightarrow> m);
          tos = (case m symbol of None \<Rightarrow> [] | Some ts \<Rightarrow> ts)
      in nfa\<lparr>NFA.transitions := (NFA.transitions nfa)(from \<mapsto> m(symbol \<mapsto> insort_insert to tos))\<rparr>)"

subsection \<open>Regex to NFA (literal concatenation only)\<close>

text \<open>The body of the loop of \<^verbatim>\<open>regexToNFA\<close>, on the triple of the automaton under
  construction and the counters \<^verbatim>\<open>next\<close> and \<^verbatim>\<open>last\<close>.\<close>

definition regexToNFA_body :: "'c::linorder \<Rightarrow> 'c NFA \<times> int \<times> int \<Rightarrow> 'c NFA \<times> int \<times> int" where
  "regexToNFA_body c = (\<lambda>(nfa, next, last).
     (let nfa1 = addTransition last c next nfa;
          nfa2 = nfa1\<lparr>NFA.states := insort_insert next (NFA.states nfa1)\<rparr>;
          nfa3 = nfa2\<lparr>NFA.alphabet := insort_insert c (NFA.alphabet nfa2)\<rparr>
      in (nfa3, next + 1, next)))"

definition regexToNFA :: "'c::linorder list \<Rightarrow> 'c NFA" where
  "regexToNFA regex =
     (let nfa0 = \<lparr>NFA.states = insort_insert 0 [], NFA.alphabet = [], NFA.transitions = Map.empty,
                  NFA.startState = 0, NFA.finalStates = []\<rparr>
      in (\<lambda>(nfa, next, last). nfa\<lparr>NFA.finalStates := insort_insert last (NFA.finalStates nfa)\<rparr>)
           (fold regexToNFA_body regex (nfa0, 1, 0)))"

subsection \<open>NFA simulation\<close>

text \<open>
  One round of the loop \<^verbatim>\<open>for (int s : current)\<close>, shared by \<^verbatim>\<open>NFA::simulate\<close> and
  \<^verbatim>\<open>nfaToDFA\<close>: \<^verbatim>\<open>transitions[s].count(c)\<close> goes through \<^verbatim>\<open>operator[]\<close> of a
  non-const map, which stores an empty inner map under \<open>s\<close> when \<open>s\<close> has no entry.
  The transitions map is therefore part of the state that the loop threads.
\<close>

definition collect :: "'c \<Rightarrow> int \<Rightarrow> (int \<rightharpoonup> ('c \<rightharpoonup> int list)) \<times> int list
    \<Rightarrow> (int \<rightharpoonup> ('c \<rightharpoonup> int list)) \<times> int list" where
  "collect c s = (\<lambda>(t, next).
     (case t s of
        None \<Rightarrow> (t(s \<mapsto> Map.empty), next)
      | Some m \<Rightarrow>
          (case m c of
             None \<Rightarrow> (t, next)
           | Some tos \<Rightarrow> (t, fold insort_insert tos next))))"

text \<open>The loop over the input: the first component is \<open>None\<close> at the early
  \<^verbatim>\<open>return false\<close> (empty active set), and the active set after the last symbol
  otherwise.\<close>

fun NFA_run :: "'c list \<Rightarrow> int list \<Rightarrow> (int \<rightharpoonup> ('c \<rightharpoonup> int list))
    \<Rightarrow> int list option \<times> (int \<rightharpoonup> ('c \<rightharpoonup> int list))" where
  "NFA_run [] current t = (Some current, t)"
| "NFA_run (c # cs) current t =
     (case fold (collect c) current (t, []) of
        (t', next) \<Rightarrow> if next = [] then (None, t') else NFA_run cs next t')"

text \<open>\<^verbatim>\<open>NFA::simulate\<close>: the answer, and the automaton as the call leaves it.\<close>

definition NFA_simulate :: "'c NFA \<Rightarrow> 'c list \<Rightarrow> bool \<times> 'c NFA" where
  "NFA_simulate nfa input =
     (case NFA_run input [NFA.startState nfa] (NFA.transitions nfa) of
        (None, t') \<Rightarrow> (False, nfa\<lparr>NFA.transitions := t'\<rparr>)
      | (Some current, t') \<Rightarrow>
          (list_ex (\<lambda>s. s \<in> set (NFA.finalStates nfa)) current, nfa\<lparr>NFA.transitions := t'\<rparr>))"

section \<open>DFA\<close>

record 'c DFA =
  states :: "int list"
  alphabet :: "'c list"
  transitions :: "int \<rightharpoonup> ('c \<rightharpoonup> int)"
  startState :: int
  finalStates :: "int list"

text \<open>The loop of \<^verbatim>\<open>DFA::simulate\<close>; \<open>None\<close> is the early \<^verbatim>\<open>return false\<close>. Here too
  \<^verbatim>\<open>transitions[current]\<close> stores an empty inner map when \<open>current\<close> has no entry.\<close>

fun DFA_run :: "'c list \<Rightarrow> int \<Rightarrow> (int \<rightharpoonup> ('c \<rightharpoonup> int))
    \<Rightarrow> int option \<times> (int \<rightharpoonup> ('c \<rightharpoonup> int))" where
  "DFA_run [] current t = (Some current, t)"
| "DFA_run (c # cs) current t =
     (case t current of
        None \<Rightarrow> (None, t(current \<mapsto> Map.empty))
      | Some m \<Rightarrow>
          (case m c of
             None \<Rightarrow> (None, t)
           | Some nxt \<Rightarrow> DFA_run cs nxt t))"

definition DFA_simulate :: "'c DFA \<Rightarrow> 'c list \<Rightarrow> bool \<times> 'c DFA" where
  "DFA_simulate dfa input =
     (case DFA_run input (DFA.startState dfa) (DFA.transitions dfa) of
        (None, t') \<Rightarrow> (False, dfa\<lparr>DFA.transitions := t'\<rparr>)
      | (Some current, t') \<Rightarrow>
          (current \<in> set (DFA.finalStates dfa), dfa\<lparr>DFA.transitions := t'\<rparr>))"

section \<open>NFA to DFA (subset construction)\<close>








section \<open>Machine integers and faults\<close>

text \<open>
  The approximate matcher and the recognizer keep sizes and indices in 32-bit \<^verbatim>\<open>int\<close>s.
  \<^verbatim>\<open>int n = text.size()\<close> narrows a \<^verbatim>\<open>size_t\<close>: the value is reduced modulo \<open>2^32\<close> into
  the range of \<^verbatim>\<open>int\<close> (what C++20 prescribes and earlier compilers do). Signed
  overflow and an access outside a vector have no defined behaviour, and a vector
  constructed with a negative size (a huge \<^verbatim>\<open>size_t\<close>) throws \<^verbatim>\<open>std::length_error\<close>:
  both are results of the model, so that a call returns a boolean only where the
  program does.
\<close>

datatype fault = Length_error | Undefined_behaviour

definition INT_MAX :: int where
  "INT_MAX = 2 ^ 31 - 1"

definition size_to_int :: "nat \<Rightarrow> int" where
  "size_to_int k = (int k + 2 ^ 31) mod 2 ^ 32 - 2 ^ 31"

section \<open>Approximate matching\<close>

text \<open>
  The table is a \<^verbatim>\<open>vector<vector<int>>\<close>, a list of rows; its cells and \<^verbatim>\<open>maxErrors\<close>
  are \<^verbatim>\<open>int\<close>s (a budget may be negative; no cell exceeds \<open>m\<close>). A \<^verbatim>\<open>for\<close> loop over an
  index range is a \<^const>\<open>fold\<close> over that range.
\<close>

text \<open>\<^verbatim>\<open>dp[i][j] = v\<close> on the table.\<close>

definition dp_set :: "int list list \<Rightarrow> nat \<Rightarrow> nat \<Rightarrow> int \<Rightarrow> int list list" where
  "dp_set dp i j v = dp[i := (dp ! i)[j := v]]"

text \<open>The value the inner loop stores in \<^verbatim>\<open>dp[i][j]\<close>, for \<open>i, j \<ge> 1\<close>.\<close>

definition dp_cell :: "string \<Rightarrow> string \<Rightarrow> nat \<Rightarrow> nat \<Rightarrow> int list list \<Rightarrow> int" where
  "dp_cell text pattern i j dp =
     (if text ! (i - 1) = pattern ! (j - 1) then dp ! (i - 1) ! (j - 1)
      else 1 + min (dp ! (i - 1) ! j) (min (dp ! i ! (j - 1)) (dp ! (i - 1) ! (j - 1))))"

text \<open>The table as the two filling loops leave it, for the values \<open>n, m \<ge> 0\<close> of the
  \<^verbatim>\<open>int\<close>s \<^verbatim>\<open>n\<close> and \<^verbatim>\<open>m\<close>: the constructor makes \<open>n + 1\<close> rows of \<open>m + 1\<close> cells
  \<open>0\<close>, the first loop writes row \<open>0\<close>, the second one the rows \<open>1, \<dots>, n\<close> from left to
  right.\<close>

definition dp_table :: "string \<Rightarrow> string \<Rightarrow> nat \<Rightarrow> nat \<Rightarrow> int list list" where
  "dp_table text pattern n m =
     (let dp0 = replicate (n + 1) (replicate (m + 1) 0);
          dp1 = fold (\<lambda>j dp. dp_set dp 0 j (int j)) [0..<m + 1] dp0
      in fold (\<lambda>i dp. fold (\<lambda>j dp. dp_set dp i j (dp_cell text pattern i j dp)) [1..<m + 1]
                         (dp_set dp i 0 0))
           [1..<n + 1] dp1)"

text \<open>
  \<^verbatim>\<open>approximateMatch\<close>. The sizes are narrowed to \<^verbatim>\<open>int\<close> first. Then \<^verbatim>\<open>n + 1\<close> or
  \<^verbatim>\<open>m + 1\<close> overflows when the \<^verbatim>\<open>int\<close> is \<^verbatim>\<open>INT_MAX\<close>; a size \<open>n + 1 < 0\<close> or
  \<open>m + 1 < 0\<close> makes the constructor throw; with \<open>n + 1 = 0\<close> or \<open>m + 1 = 0\<close> the table
  has no row or no column, and the loops or the final scan access it outside its
  bounds. Otherwise \<open>0 \<le> n \<le> |text|\<close> and \<open>0 \<le> m \<le> |pattern|\<close>, every access of the
  loops is inside the table and the two strings, and the final scan returns true at the
  first \<open>i\<close> in \<open>m, \<dots>, n\<close> whose cell in the last column is within the budget, and false
  when there is none.
\<close>

definition approximateMatch :: "string \<Rightarrow> string \<Rightarrow> int \<Rightarrow> fault + bool" where
  "approximateMatch text pattern maxErrors =
     (let n = size_to_int (length text); m = size_to_int (length pattern)
      in if n = INT_MAX \<or> m = INT_MAX then Inl Undefined_behaviour
         else if n < - 1 \<or> m < - 1 then Inl Length_error
         else if n = - 1 \<or> m = - 1 then Inl Undefined_behaviour
         else (let dp = dp_table text pattern (nat n) (nat m)
               in Inr (list_ex (\<lambda>i. dp ! i ! nat m \<le> maxErrors) [nat m..<nat n + 1])))"

text \<open>The table of the specification, from its words: the base cases \<open>dp[0][j] = j\<close> and
  \<open>dp[i][0] = 0\<close>, and for \<open>i, j \<ge> 1\<close> the cell \<open>dp[i-1][j-1]\<close> when
  \<open>text[i-1] = pattern[j-1]\<close>, and \<open>1 + min(dp[i-1][j-1], dp[i][j-1], dp[i-1][j])\<close>
  otherwise.\<close>

fun dp_spec :: "string \<Rightarrow> string \<Rightarrow> nat \<Rightarrow> nat \<Rightarrow> int" where
  "dp_spec text pattern 0 j = int j"
| "dp_spec text pattern (Suc i) 0 = 0"
| "dp_spec text pattern (Suc i) (Suc j) =
     (if text ! i = pattern ! j then dp_spec text pattern i j
      else 1 + min (dp_spec text pattern i j)
                 (min (dp_spec text pattern (Suc i) j) (dp_spec text pattern i (Suc j))))"

section \<open>PDA for the language \<open>a^n b^n\<close>\<close>

text \<open>
  The stack is a list, top first. The index is the \<^verbatim>\<open>int i\<close> of the source: \<^verbatim>\<open>i++\<close>
  at \<^verbatim>\<open>INT_MAX\<close> is a signed overflow, and the comparisons with \<^verbatim>\<open>input.size()\<close>
  convert \<open>i\<close> to \<^verbatim>\<open>size_t\<close>, so that a negative \<open>i\<close> would be larger than any size.
\<close>

text \<open>The push phase: the position and the stack when the loop ends.\<close>

function push_phase :: "string \<Rightarrow> int \<Rightarrow> char list \<Rightarrow> fault + int \<times> char list" where
  "push_phase input i st =
     (if 0 \<le> i \<and> nat i < length input \<and> input ! nat i = CHR ''a''
      then (if i = INT_MAX then Inl Undefined_behaviour
            else push_phase input (i + 1) (CHR ''A'' # st))
      else Inr (i, st))"
  by pat_completeness auto
termination
  by (relation "measure (\<lambda>(input, i, st). nat (int (length input) - i))") auto

text \<open>The pop phase: \<open>None\<close> is the \<^verbatim>\<open>return false\<close> inside the loop.\<close>

function pop_phase :: "string \<Rightarrow> int \<Rightarrow> char list \<Rightarrow> fault + (int \<times> char list) option" where
  "pop_phase input i st =
     (if 0 \<le> i \<and> nat i < length input \<and> input ! nat i = CHR ''b''
      then (if st = [] then Inr None
            else if i = INT_MAX then Inl Undefined_behaviour
            else pop_phase input (i + 1) (tl st))
      else Inr (Some (i, st)))"
  by pat_completeness auto
termination
  by (relation "measure (\<lambda>(input, i, st). nat (int (length input) - i))") auto

definition PDA_simulate :: "string \<Rightarrow> fault + bool" where
  "PDA_simulate input =
     (case push_phase input 0 [] of
        Inl f \<Rightarrow> Inl f
      | Inr (i, st) \<Rightarrow>
          (case pop_phase input i st of
             Inl f \<Rightarrow> Inl f
           | Inr None \<Rightarrow> Inr False
           | Inr (Some (i', st')) \<Rightarrow> Inr (i' = int (length input) \<and> st' = [])))"

section \<open>Notions used in the statements and proofs\<close>

subsection \<open>Closed forms of the automata of a literal pattern\<close>

text \<open>The transitions of the chain of a pattern: state \<open>s\<close> goes to \<open>s + 1\<close> on the
  symbol at position \<open>s\<close>, and nothing else is recorded.\<close>

definition chain_tr :: "'c list \<Rightarrow> int \<rightharpoonup> ('c \<rightharpoonup> int list)" where
  "chain_tr P = (\<lambda>s. if 0 \<le> s \<and> s < int (length P) then Some [P ! nat s \<mapsto> [s + 1]] else None)"

text \<open>The alphabet of a pattern, as the successive \<^verbatim>\<open>alphabet.insert(c)\<close> build it.\<close>

definition alph :: "'c::linorder list \<Rightarrow> 'c list" where
  "alph P = fold insort_insert P []"

text \<open>The chain automaton of a pattern.\<close>

definition chain_nfa :: "'c::linorder list \<Rightarrow> 'c NFA" where
  "chain_nfa P = \<lparr>NFA.states = [0..int (length P)], NFA.alphabet = alph P,
     NFA.transitions = chain_tr P, NFA.startState = 0, NFA.finalStates = [int (length P)]\<rparr>"

text \<open>The chain's transitions once \<^verbatim>\<open>transitions[s]\<close> has been evaluated at the last
  state, which has no entry: an empty inner map is stored there. During a simulation
  or a conversion of the chain, the transitions map is one of the two.\<close>

definition chain_tr_end :: "'c list \<Rightarrow> int \<rightharpoonup> ('c \<rightharpoonup> int list)" where
  "chain_tr_end P = (chain_tr P)(int (length P) \<mapsto> Map.empty)"

definition chain_like :: "'c list \<Rightarrow> (int \<rightharpoonup> ('c \<rightharpoonup> int list)) \<Rightarrow> bool" where
  "chain_like P t \<longleftrightarrow> t = chain_tr P \<or> t = chain_tr_end P"






subsection \<open>What a lookup leaves behind, and what an automaton records\<close>



text \<open>The transition a DFA records for a state and a symbol, if any.\<close>

definition dfa_step :: "'c DFA \<Rightarrow> int \<Rightarrow> 'c \<Rightarrow> int option" where
  "dfa_step dfa q c = (case DFA.transitions dfa q of None \<Rightarrow> None | Some m \<Rightarrow> m c)"

text \<open>The state reached from the start state by following one recorded transition
  per symbol of the input, from left to right; \<open>None\<close> when one of them is missing.\<close>

definition dfa_path :: "'c DFA \<Rightarrow> 'c list \<Rightarrow> int option" where
  "dfa_path dfa input =
     fold (\<lambda>c r. case r of None \<Rightarrow> None | Some q \<Rightarrow> dfa_step dfa q c) input
       (Some (DFA.startState dfa))"

subsection \<open>The shape of the edit-distance table\<close>

text \<open>The table has \<open>n + 1\<close> rows of \<open>m + 1\<close> cells.\<close>

definition dp_dims :: "nat \<Rightarrow> nat \<Rightarrow> int list list \<Rightarrow> bool" where
  "dp_dims n m dp \<longleftrightarrow> length dp = n + 1 \<and> (\<forall>i\<le>n. length (dp ! i) = m + 1)"

section \<open>Properties\<close>

subsection \<open>The automaton that \<^verbatim>\<open>regexToNFA\<close> builds is the chain\<close>

lemma insort_insert_last:
  fixes y :: "'a::linorder"
  shows "\<forall>x\<in>set xs. x < y \<Longrightarrow> insort_insert y xs = xs @ [y]"
proof (induction xs)
  case Nil
  then show ?case by (simp add: insort_insert_key_def)
next
  case (Cons a xs)
  then have "insort_insert y xs = xs @ [y]" by simp
  moreover have "y \<notin> set (a # xs)" using Cons.prems by auto
  ultimately show ?case using Cons.prems
    by (auto simp: insort_insert_key_def)
qed

lemma insort_insert_upto: "0 \<le> k \<Longrightarrow> insort_insert (k + 1) [0..k] = [0..k + 1]"
proof -
  assume k: "0 \<le> k"
  have "insort_insert (k + 1) [0..k] = [0..k] @ [k + 1]"
    by (rule insort_insert_last) auto
  also have "\<dots> = [0..k + 1]" using k by (simp add: upto_rec2)
  finally show ?thesis .
qed

lemma alph_snoc: "alph (P @ [c]) = insort_insert c (alph P)"
  by (simp add: alph_def)




lemma chain_tr_snoc:
  "(chain_tr P)(int (length P) \<mapsto> [c \<mapsto> insort_insert (int (length P) + 1) []]) = chain_tr (P @ [c])"
  by (rule ext) (auto simp: chain_tr_def nth_append insort_insert_key_def)

lemma chain_tr_at_end: "chain_tr P (int (length P)) = None"
  by (simp add: chain_tr_def)

lemma regexToNFA_body_chain:
  "regexToNFA_body c ((chain_nfa P)\<lparr>NFA.finalStates := []\<rparr>, int (length P) + 1, int (length P))
     = ((chain_nfa (P @ [c]))\<lparr>NFA.finalStates := []\<rparr>, int (length (P @ [c])) + 1, int (length (P @ [c])))"
proof -
  have "insort_insert (int (length P) + 1) [0..int (length P)] = [0..int (length P) + 1]"
    by (rule insort_insert_upto) simp
  then show ?thesis
    using chain_tr_snoc [of P c]
    by (simp add: regexToNFA_body_def addTransition_def chain_nfa_def chain_tr_at_end alph_snoc Let_def add.commute)
qed

lemma chain_tr_Nil: "chain_tr [] = Map.empty"
  by (rule ext) (simp add: chain_tr_def)

lemma regexToNFA_fold:
  "fold regexToNFA_body P
     (\<lparr>NFA.states = insort_insert 0 [], NFA.alphabet = [], NFA.transitions = Map.empty,
       NFA.startState = 0, NFA.finalStates = []\<rparr>, 1, 0)
   = ((chain_nfa P)\<lparr>NFA.finalStates := []\<rparr>, int (length P) + 1, int (length P))"
proof (induction P rule: rev_induct)
  case Nil
  show ?case
    by (simp add: chain_nfa_def alph_def chain_tr_Nil insort_insert_key_def)
next
  case (snoc c P)
  then show ?case
    using regexToNFA_body_chain [of c P] by simp
qed

lemma regexToNFA_chain: "regexToNFA P = chain_nfa P"
  by (simp add: regexToNFA_def regexToNFA_fold) (simp add: chain_nfa_def insort_insert_key_def)

lemma collect_chain_lt:
  assumes "k < length P" "chain_like P t"
  shows "collect c (int k) (t, []) = (t, if c = P ! k then [int (Suc k)] else [])"
proof -
  have "t (int k) = Some [P ! k \<mapsto> [int k + 1]]"
    using assms by (auto simp: chain_like_def chain_tr_def chain_tr_end_def)
  then show ?thesis
    by (simp add: collect_def insort_insert_key_def add.commute)
qed

lemma collect_chain_end:
  assumes "chain_like P t"
  shows "collect c (int (length P)) (t, []) = (chain_tr_end P, [])"
proof -
  from assms consider "t = chain_tr P" | "t = chain_tr_end P"
    by (auto simp: chain_like_def)
  then show ?thesis
  proof cases
    case 1
    then show ?thesis by (simp add: collect_def chain_tr_at_end chain_tr_end_def)
  next
    case 2
    then show ?thesis by (simp add: collect_def chain_tr_end_def)
  qed
qed

lemma chain_like_end: "chain_like P (chain_tr_end P)"
  by (simp add: chain_like_def)

lemma NFA_run_chain:
  assumes "k \<le> length P" "chain_like P t"
  shows "fst (NFA_run S [int k] t) =
           (if take (length S) (drop k P) = S then Some [int (k + length S)] else None)
         \<and> chain_like P (snd (NFA_run S [int k] t))"
  using assms
proof (induction S arbitrary: k t)
  case Nil
  then show ?case by simp
next
  case (Cons c cs)
  show ?case
  proof (cases "k < length P")
    case True
    then have d: "drop k P = P ! k # drop (Suc k) P"
      by (simp add: Cons_nth_drop_Suc)
    show ?thesis
    proof (cases "c = P ! k")
      case eq: True
      have "Suc k \<le> length P" using True by simp
      from Cons.IH [OF this Cons.prems(2)] show ?thesis
        using True eq Cons.prems(2) d
        by (simp add: collect_chain_lt [OF True Cons.prems(2)])
    next
      case False
      then show ?thesis
        using True Cons.prems(2) d
        by (simp add: collect_chain_lt [OF True Cons.prems(2)])
    qed
  next
    case False
    then have k: "k = length P" using Cons.prems(1) by simp
    show ?thesis
      using Cons.prems(2) unfolding k
      by (simp add: collect_chain_end chain_like_end)
  qed
qed

lemma chain_like_init: "chain_like P (chain_tr P)"
  by (simp add: chain_like_def)

lemma NFA_simulate_chain_like:
  assumes "chain_like P t"
  shows "fst (NFA_simulate ((chain_nfa P)\<lparr>NFA.transitions := t\<rparr>) S) = (S = P)"
proof -
  have r: "fst (NFA_run S [int 0] t) =
      (if take (length S) (drop 0 P) = S then Some [int (0 + length S)] else None)"
    using NFA_run_chain [of 0 P t S] assms by simp
  have e: "(take (length S) P = S \<and> length S = length P) = (S = P)"
    by auto
  show ?thesis
    using r e
    by (cases "NFA_run S [0] t") (auto simp: NFA_simulate_def chain_nfa_def split: option.splits if_splits)
qed

lemma NFA_simulate_chain: "fst (NFA_simulate (regexToNFA P) S) = (S = P)"
  using NFA_simulate_chain_like [OF chain_like_init, of P S]
  by (simp add: regexToNFA_chain chain_nfa_def)

subsection \<open>Structure and language of the NFA of a pattern\<close>



text \<open>
  Claim C9. Under NFA simulation the automaton of the pattern \<open>ab\<close> accepts the string
  \<open>ab\<close> and no other string, in particular none of \<open>a\<close>, \<open>abc\<close>, \<open>ba\<close> and the empty
  string; the automaton of the empty pattern accepts the empty string and no other.
\<close>

theorem chain_acceptance:
  "(\<forall>S. fst (NFA_simulate (regexToNFA ''ab'') S) = (S = ''ab''))
   \<and> \<not> fst (NFA_simulate (regexToNFA ''ab'') ''a'')
   \<and> \<not> fst (NFA_simulate (regexToNFA ''ab'') ''abc'')
   \<and> \<not> fst (NFA_simulate (regexToNFA ''ab'') ''ba'')
   \<and> \<not> fst (NFA_simulate (regexToNFA ''ab'') '''')
   \<and> (\<forall>S. fst (NFA_simulate (regexToNFA ([] :: string)) S) = (S = []))"
  by (simp add: NFA_simulate_chain)

theorem chain_acceptance_witness:
  "fst (NFA_simulate (regexToNFA ''ab'') ''ab'') \<and> fst (NFA_simulate (regexToNFA ([] :: string)) [])"
  using chain_acceptance by blast

subsection \<open>Subset construction on a chain\<close>
























subsection \<open>The two simulations agree\<close>









subsection \<open>What simulation and conversion leave in the NFA\<close>








subsection \<open>DFA simulation on any DFA\<close>

lemma fold_path_None:
  "fold (\<lambda>c r. case r of None \<Rightarrow> None | Some q \<Rightarrow> f q c) input None = None"
  by (induction input) simp_all

lemma DFA_run_fold:
  "fst (DFA_run input q t) =
     fold (\<lambda>c r. case r of None \<Rightarrow> None | Some q \<Rightarrow> (case t q of None \<Rightarrow> None | Some m \<Rightarrow> m c))
       input (Some q)"
proof (induction input arbitrary: q)
  case Nil
  show ?case by simp
next
  case (Cons c cs)
  show ?case
  proof (cases "t q")
    case None
    then show ?thesis by (simp add: fold_path_None)
  next
    case (Some m)
    then show ?thesis
      using Cons.IH by (cases "m c") (simp_all add: fold_path_None)
  qed
qed

lemma DFA_simulate_path:
  "fst (DFA_simulate dfa input) =
     (case dfa_path dfa input of None \<Rightarrow> False | Some q \<Rightarrow> q \<in> set (DFA.finalStates dfa))"
proof -
  have "fst (DFA_run input (DFA.startState dfa) (DFA.transitions dfa)) = dfa_path dfa input"
    unfolding DFA_run_fold dfa_path_def dfa_step_def ..
  then show ?thesis
    by (cases "DFA_run input (DFA.startState dfa) (DFA.transitions dfa)")
      (auto simp: DFA_simulate_def split: option.splits)
qed

lemma dfa_path_append:
  "dfa_path dfa (xs @ ys) =
     fold (\<lambda>c r. case r of None \<Rightarrow> None | Some q \<Rightarrow> dfa_step dfa q c) ys (dfa_path dfa xs)"
  by (simp add: dfa_path_def)

lemma dfa_path_missing:
  assumes "dfa_path dfa pre = Some q" "dfa_step dfa q c = None"
  shows "dfa_path dfa (pre @ c # rest) = None"
  using assms by (simp add: dfa_path_append fold_path_None)

lemma dfa_path_unknown:
  assumes "c \<in> set input" "\<And>q. dfa_step dfa q c = None"
  shows "dfa_path dfa input = None"
proof -
  from assms(1) obtain pre rest where i: "input = pre @ c # rest"
    by (auto dest: split_list)
  show ?thesis
  proof (cases "dfa_path dfa pre")
    case None
    then show ?thesis unfolding i by (simp add: dfa_path_append fold_path_None)
  next
    case (Some q)
    then show ?thesis unfolding i using assms(2) by (rule dfa_path_missing)
  qed
qed

text \<open>
  Claim C8. DFA simulation starts at the start state and follows one recorded
  transition per input symbol: it accepts iff every symbol has a recorded transition
  from the state reached before it and the state reached after the last symbol is
  final. It rejects whenever some symbol has no recorded transition from the state
  reached before it, in particular whenever the input contains a symbol for which no
  state records a transition. The simulation is a total function: no input raises an
  error.
\<close>

theorem DFA_simulate_contract:
  "fst (DFA_simulate dfa input) =
     (case dfa_path dfa input of None \<Rightarrow> False | Some q \<Rightarrow> q \<in> set (DFA.finalStates dfa))
   \<and> fst (DFA_simulate dfa []) = (DFA.startState dfa \<in> set (DFA.finalStates dfa))
   \<and> (dfa_path dfa pre = Some q \<and> dfa_step dfa q c = None
        \<longrightarrow> \<not> fst (DFA_simulate dfa (pre @ c # rest)))
   \<and> (c \<in> set input \<and> (\<forall>q. dfa_step dfa q c = None) \<longrightarrow> \<not> fst (DFA_simulate dfa input))"
proof -
  have "fst (DFA_simulate dfa []) = (DFA.startState dfa \<in> set (DFA.finalStates dfa))"
    by (simp add: DFA_simulate_def)
  moreover have "\<not> fst (DFA_simulate dfa (pre @ c # rest))"
    if "dfa_path dfa pre = Some q" "dfa_step dfa q c = None"
    using dfa_path_missing [OF that] by (simp add: DFA_simulate_path)
  moreover have "\<not> fst (DFA_simulate dfa input)"
    if "c \<in> set input" "\<forall>q. dfa_step dfa q c = None"
    using dfa_path_unknown [of c input dfa] that by (simp add: DFA_simulate_path)
  ultimately show ?thesis
    using DFA_simulate_path [of dfa input] by blast
qed

theorem DFA_simulate_contract_witness:
  "dfa_path \<lparr>DFA.states = [0, 1], DFA.alphabet = ''a'',
       DFA.transitions = [0 \<mapsto> [CHR ''a'' \<mapsto> 1]], DFA.startState = 0, DFA.finalStates = [1]\<rparr> ''a'' = Some 1
   \<and> dfa_step \<lparr>DFA.states = [0, 1], DFA.alphabet = ''a'',
       DFA.transitions = [0 \<mapsto> [CHR ''a'' \<mapsto> 1]], DFA.startState = 0, DFA.finalStates = [1]\<rparr> 1 (CHR ''a'') = None
   \<and> \<not> fst (DFA_simulate \<lparr>DFA.states = [0, 1], DFA.alphabet = ''a'',
       DFA.transitions = [0 \<mapsto> [CHR ''a'' \<mapsto> 1]], DFA.startState = 0, DFA.finalStates = [1]\<rparr> ''aa'')
   \<and> CHR ''z'' \<in> set ''az''
   \<and> (\<forall>q. dfa_step \<lparr>DFA.states = [0, 1], DFA.alphabet = ''a'',
       DFA.transitions = [0 \<mapsto> [CHR ''a'' \<mapsto> 1]], DFA.startState = 0, DFA.finalStates = [1]\<rparr> q (CHR ''z'') = None)
   \<and> \<not> fst (DFA_simulate \<lparr>DFA.states = [0, 1], DFA.alphabet = ''a'',
       DFA.transitions = [0 \<mapsto> [CHR ''a'' \<mapsto> 1]], DFA.startState = 0, DFA.finalStates = [1]\<rparr> ''az'')
   \<and> fst (DFA_simulate \<lparr>DFA.states = [0, 1], DFA.alphabet = ''a'',
       DFA.transitions = [0 \<mapsto> [CHR ''a'' \<mapsto> 1]], DFA.startState = 0, DFA.finalStates = [1]\<rparr> ''a'')"
proof -
  let ?D = "\<lparr>DFA.states = [0, 1], DFA.alphabet = ''a'',
       DFA.transitions = [0 \<mapsto> [CHR ''a'' \<mapsto> 1]], DFA.startState = 0, DFA.finalStates = [1]\<rparr>"
  have p: "dfa_path ?D ''a'' = Some 1"
    by (simp add: dfa_path_def dfa_step_def)
  have s: "dfa_step ?D 1 (CHR ''a'') = None"
    by (simp add: dfa_step_def)
  have z: "\<forall>q. dfa_step ?D q (CHR ''z'') = None"
    by (simp add: dfa_step_def)
  have m: "CHR ''z'' \<in> set ''az''"
    by simp
  have "\<not> fst (DFA_simulate ?D (''a'' @ CHR ''a'' # []))"
    using DFA_simulate_contract [of ?D "''a''" "''a''" 1 "CHR ''a''" "[]"] p s by blast
  moreover have "\<not> fst (DFA_simulate ?D ''az'')"
    using DFA_simulate_contract [of ?D "''az''" "[]" 0 "CHR ''z''" "[]"] z m by blast
  moreover have "fst (DFA_simulate ?D ''a'')"
    using DFA_simulate_contract [of ?D "''a''" "[]" 0 "CHR ''z''" "[]"] p by simp
  ultimately show ?thesis
    using p s z m by simp
qed

subsection \<open>The table that \<^verbatim>\<open>approximateMatch\<close> fills\<close>

lemma dp_set_other: "i' \<noteq> i \<Longrightarrow> dp_set dp i j v ! i' = dp ! i'"
  by (simp add: dp_set_def)

lemma dp_set_same:
  "i < length dp \<Longrightarrow> j < length (dp ! i) \<Longrightarrow>
     dp_set dp i j v ! i ! j' = (if j' = j then v else dp ! i ! j')"
  by (simp add: dp_set_def nth_list_update)

lemma dp_set_row_length:
  "i' < length dp \<Longrightarrow> length (dp_set dp i j v ! i') = length (dp ! i')"
  by (cases "i' = i") (simp_all add: dp_set_def)

lemma dp_set_dims: "dp_dims n m dp \<Longrightarrow> dp_dims n m (dp_set dp i j v)"
  by (simp add: dp_dims_def dp_set_row_length) (simp add: dp_set_def)

lemma row0_loop:
  assumes "dp_dims n m dp" "J \<le> m + 1"
  shows "dp_dims n m (fold (\<lambda>j dp. dp_set dp 0 j (int j)) [0..<J] dp)
       \<and> (\<forall>j<J. fold (\<lambda>j dp. dp_set dp 0 j (int j)) [0..<J] dp ! 0 ! j = int j)"
  using assms(2)
proof (induction J)
  case 0
  show ?case using assms(1) by simp
next
  case (Suc J)
  let ?d = "fold (\<lambda>j dp. dp_set dp 0 j (int j)) [0..<J] dp"
  from Suc have d: "dp_dims n m ?d" and r: "\<forall>j<J. ?d ! 0 ! j = int j"
    by simp_all
  have l: "0 < length ?d" "J < length (?d ! 0)"
    using d Suc.prems by (simp_all add: dp_dims_def)
  have "dp_set ?d 0 J (int J) ! 0 ! j = int j" if "j < Suc J" for j
    using that r by (simp add: dp_set_same [OF l])
  then show ?case
    using dp_set_dims [OF d] by simp
qed

lemma dp_cell_spec:
  assumes "\<forall>j\<le>m. dp ! i ! j = dp_spec text pattern i j"
    and "dp ! Suc i ! J = dp_spec text pattern (Suc i) J" "Suc J \<le> m"
  shows "dp_cell text pattern (Suc i) (Suc J) dp = dp_spec text pattern (Suc i) (Suc J)"
proof -
  have "dp ! i ! J = dp_spec text pattern i J" "dp ! i ! Suc J = dp_spec text pattern i (Suc J)"
    using assms(1,3) by simp_all
  then show ?thesis
    using assms(2) by (simp add: dp_cell_def min.commute min.left_commute)
qed

lemma inner_loop:
  assumes "dp_dims n m dp" "Suc i \<le> n"
    and "\<forall>j\<le>m. dp ! i ! j = dp_spec text pattern i j"
    and "dp ! Suc i ! 0 = 0"
    and "J \<le> m"
  shows "dp_dims n m (fold (\<lambda>j dp. dp_set dp (Suc i) j (dp_cell text pattern (Suc i) j dp)) [1..<J + 1] dp)
     \<and> (\<forall>i'. i' \<noteq> Suc i \<longrightarrow>
           fold (\<lambda>j dp. dp_set dp (Suc i) j (dp_cell text pattern (Suc i) j dp)) [1..<J + 1] dp ! i' = dp ! i')
     \<and> (\<forall>j\<le>J. fold (\<lambda>j dp. dp_set dp (Suc i) j (dp_cell text pattern (Suc i) j dp)) [1..<J + 1] dp
             ! Suc i ! j = dp_spec text pattern (Suc i) j)"
  using assms(5)
proof (induction J)
  case 0
  show ?case using assms(1,4) by simp
next
  case (Suc J)
  let ?f = "\<lambda>j dp. dp_set dp (Suc i) j (dp_cell text pattern (Suc i) j dp)"
  define d where "d = fold ?f [1..<J + 1] dp"
  from Suc have d: "dp_dims n m d"
    and o: "\<forall>i'. i' \<noteq> Suc i \<longrightarrow> d ! i' = dp ! i'"
    and r: "\<forall>j\<le>J. d ! Suc i ! j = dp_spec text pattern (Suc i) j"
    by (simp_all add: d_def)
  have s: "fold ?f [1..<Suc J + 1] dp = dp_set d (Suc i) (Suc J) (dp_cell text pattern (Suc i) (Suc J) d)"
    by (simp add: d_def)
  have l: "Suc i < length d" "Suc J < length (d ! Suc i)"
    using d assms(2) Suc.prems by (simp_all add: dp_dims_def)
  have p: "\<forall>j\<le>m. d ! i ! j = dp_spec text pattern i j"
    using o assms(3) by simp
  have rJ: "d ! Suc i ! J = dp_spec text pattern (Suc i) J"
    using r by simp
  have c: "dp_cell text pattern (Suc i) (Suc J) d = dp_spec text pattern (Suc i) (Suc J)"
    using p rJ Suc.prems by (rule dp_cell_spec)
  have "dp_set d (Suc i) (Suc J) (dp_cell text pattern (Suc i) (Suc J) d) ! Suc i ! j
      = dp_spec text pattern (Suc i) j" if "j \<le> Suc J" for j
    unfolding c dp_set_same [OF l] using that r by (auto simp: le_Suc_eq)
  moreover have "dp_set d (Suc i) (Suc J) v ! i' = dp ! i'" if "i' \<noteq> Suc i" for i' v
    using that o by (simp add: dp_set_other)
  ultimately show ?case
    unfolding s using dp_set_dims [OF d] by blast
qed

lemma outer_loop:
  assumes "dp_dims n m dp"
    and "\<forall>j\<le>m. dp ! 0 ! j = int j"
    and "I \<le> n"
  shows "dp_dims n m
       (fold (\<lambda>i dp. fold (\<lambda>j dp. dp_set dp i j (dp_cell text pattern i j dp)) [1..<m + 1]
                         (dp_set dp i 0 0)) [1..<I + 1] dp)
     \<and> (\<forall>i\<le>I. \<forall>j\<le>m.
          fold (\<lambda>i dp. fold (\<lambda>j dp. dp_set dp i j (dp_cell text pattern i j dp)) [1..<m + 1]
                         (dp_set dp i 0 0)) [1..<I + 1] dp ! i ! j = dp_spec text pattern i j)"
  using assms(3)
proof (induction I)
  case 0
  show ?case using assms(1,2) by simp
next
  case (Suc I)
  let ?n = "n" and ?m = "m"
  let ?g = "\<lambda>i dp. fold (\<lambda>j dp. dp_set dp i j (dp_cell text pattern i j dp)) [1..<?m + 1] (dp_set dp i 0 0)"
  define d where "d = fold ?g [1..<I + 1] dp"
  define e where "e = dp_set d (Suc I) 0 0"
  from Suc have d: "dp_dims ?n ?m d"
    and r: "\<forall>i\<le>I. \<forall>j\<le>?m. d ! i ! j = dp_spec text pattern i j"
    by (simp_all add: d_def)
  have s: "fold ?g [1..<Suc I + 1] dp
      = fold (\<lambda>j dp. dp_set dp (Suc I) j (dp_cell text pattern (Suc I) j dp)) [1..<?m + 1] e"
    by (simp add: d_def e_def)
  have e: "dp_dims ?n ?m e"
    unfolding e_def by (rule dp_set_dims [OF d])
  have l: "Suc I < length d" "0 < length (d ! Suc I)"
    using d Suc.prems by (simp_all add: dp_dims_def)
  have z: "e ! Suc I ! 0 = 0"
    unfolding e_def by (simp add: dp_set_same [OF l])
  have p: "\<forall>j\<le>?m. e ! I ! j = dp_spec text pattern I j"
    unfolding e_def using r by (simp add: dp_set_other)
  note il = inner_loop [OF e Suc.prems p z order_refl]
  define d' where "d' = fold (\<lambda>j dp. dp_set dp (Suc I) j (dp_cell text pattern (Suc I) j dp)) [1..<?m + 1] e"
  have il1: "dp_dims ?n ?m d'"
    and il2: "\<forall>i'. i' \<noteq> Suc I \<longrightarrow> d' ! i' = e ! i'"
    and il3: "\<forall>j\<le>?m. d' ! Suc I ! j = dp_spec text pattern (Suc I) j"
    using il unfolding d'_def by blast+
  have "d' ! i ! j = dp_spec text pattern i j" if "i \<le> Suc I" "j \<le> ?m" for i j
  proof (cases "i = Suc I")
    case True
    then show ?thesis using il3 that(2) by simp
  next
    case False
    then have "d' ! i = e ! i" using il2 by simp
    also have "\<dots> = d ! i" unfolding e_def using False by (simp add: dp_set_other)
    finally show ?thesis using r that False by simp
  qed
  then show ?case
    unfolding s using il1 unfolding d'_def by blast
qed

lemma dp_table_spec:
  assumes "i \<le> n" "j \<le> m"
  shows "dp_table text pattern n m ! i ! j = dp_spec text pattern i j"
proof -
  let ?dp0 = "replicate (n + 1) (replicate (m + 1) (0::int))"
  let ?dp1 = "fold (\<lambda>j dp. dp_set dp 0 j (int j)) [0..<m + 1] ?dp0"
  have "dp_dims n m ?dp0"
    unfolding dp_dims_def by (simp del: replicate.simps)
  from row0_loop [OF this order_refl]
  have d: "dp_dims n m ?dp1" and r: "\<forall>j\<le>m. ?dp1 ! 0 ! j = int j"
    by simp_all
  from outer_loop [OF d r order_refl] assms show ?thesis
    by (simp add: dp_table_def Let_def)
qed

lemma size_to_int_small: "k < 2 ^ 31 \<Longrightarrow> size_to_int k = int k"
  by (simp add: size_to_int_def)

lemma approximateMatch_scan:
  assumes "0 \<le> size_to_int (length text)" "size_to_int (length text) < INT_MAX"
    and "0 \<le> size_to_int (length pattern)" "size_to_int (length pattern) < INT_MAX"
  shows "approximateMatch text pattern maxErrors =
     Inr (\<exists>i. nat (size_to_int (length pattern)) \<le> i \<and> i \<le> nat (size_to_int (length text))
            \<and> dp_spec text pattern i (nat (size_to_int (length pattern))) \<le> maxErrors)"
proof -
  define n where "n = nat (size_to_int (length text))"
  define m where "m = nat (size_to_int (length pattern))"
  have "list_ex (\<lambda>i. dp_table text pattern n m ! i ! m \<le> maxErrors) [m..<n + 1]
      \<longleftrightarrow> (\<exists>i. m \<le> i \<and> i \<le> n \<and> dp_table text pattern n m ! i ! m \<le> maxErrors)"
    by (auto simp: list_ex_iff)
  also have "\<dots> \<longleftrightarrow> (\<exists>i. m \<le> i \<and> i \<le> n \<and> dp_spec text pattern i m \<le> maxErrors)"
    by (auto simp: dp_table_spec)
  finally have "list_ex (\<lambda>i. dp_table text pattern n m ! i ! m \<le> maxErrors) [m..<n + 1]
      \<longleftrightarrow> (\<exists>i. m \<le> i \<and> i \<le> n \<and> dp_spec text pattern i m \<le> maxErrors)" .
  then show ?thesis
    using assms unfolding n_def m_def by (simp add: approximateMatch_def Let_def)
qed

lemma approximateMatch_spec:
  assumes "length text < 2 ^ 31 - 1" "length pattern < 2 ^ 31 - 1"
  shows "approximateMatch text pattern maxErrors =
     Inr (\<exists>i. length pattern \<le> i \<and> i \<le> length text
            \<and> dp_spec text pattern i (length pattern) \<le> maxErrors)"
proof -
  have n: "size_to_int (length text) = int (length text)"
    using assms(1) by (intro size_to_int_small) simp
  have m: "size_to_int (length pattern) = int (length pattern)"
    using assms(2) by (intro size_to_int_small) simp
  have "int (length text) < INT_MAX" "int (length pattern) < INT_MAX"
    using assms by (simp_all add: INT_MAX_def)
  then show ?thesis
    using approximateMatch_scan [of "text" pattern maxErrors] by (simp add: n m)
qed

lemma approximateMatch_text_wrapped:
  assumes "length text = 2 ^ 32" "length pattern = 1"
  shows "approximateMatch text pattern maxErrors = Inr False"
proof -
  have n: "size_to_int (length text) = 0"
    unfolding assms(1) by (simp add: size_to_int_def)
  have m: "size_to_int (length pattern) = 1"
    unfolding assms(2) by (simp add: size_to_int_def)
  show ?thesis
    using approximateMatch_scan [of "text" pattern maxErrors]
    by (simp add: n m INT_MAX_def)
qed

lemma approximateMatch_pattern_wrapped:
  assumes "length text = 1" "length pattern = 2 ^ 32" "0 \<le> maxErrors"
  shows "approximateMatch text pattern maxErrors = Inr True"
proof -
  have n: "size_to_int (length text) = 1"
    unfolding assms(1) by (simp add: size_to_int_def)
  have m: "size_to_int (length pattern) = 0"
    unfolding assms(2) by (simp add: size_to_int_def)
  have "\<exists>i. i \<le> Suc 0 \<and> dp_spec text pattern i 0 \<le> maxErrors"
    using assms(3) by (intro exI [where x = 0]) simp
  then show ?thesis
    using approximateMatch_scan [of "text" pattern maxErrors]
    by (simp add: n m INT_MAX_def)
qed

lemma dp_spec_first_cell:
  assumes "0 < length text" "text ! 0 = c"
  shows "Min ((\<lambda>i. dp_spec text [c] i (length [c])) ` {length [c]..length text}) \<le> 0"
proof -
  have "dp_spec text [c] (Suc 0) (Suc 0) = 0"
    using assms(2) by simp
  moreover have "Suc 0 \<le> length text"
    using assms(1) by arith
  then have "dp_spec text [c] (Suc 0) (Suc 0)
      \<in> (\<lambda>i. dp_spec text [c] i (length [c])) ` {length [c]..length text}"
    by (intro image_eqI [where x = "Suc 0"]) simp_all
  ultimately show ?thesis
    by (metis Min_le finite_atLeastAtMost finite_imageI)
qed

lemma replicate_head: "0 < n \<Longrightarrow> replicate n x = [] @ [x] @ replicate (n - 1) x"
  by (cases n) simp_all

subsection \<open>Budget zero, and patterns longer than the text\<close>

lemma dp_spec_nonneg: "0 \<le> dp_spec text pattern i j"
  by (induction "text" pattern i j rule: dp_spec.induct) simp_all

lemma dp_spec_zero:
  assumes "i \<le> length tx" "j \<le> length pt"
  shows "dp_spec tx pt i j = 0 \<longleftrightarrow> j \<le> i \<and> take j pt = drop (i - j) (take i tx)"
  using assms
proof (induction tx pt i j rule: dp_spec.induct)
  case (1 tx pt j)
  then show ?case by auto
next
  case (2 tx pt i)
  then show ?case by simp
next
  case (3 tx pt i j)
  from 3 have i: "i < length tx" and j: "j < length pt"
    by simp_all
  have tp: "take (Suc j) pt = take j pt @ [pt ! j]"
    using j by (simp add: take_Suc_conv_app_nth)
  have tt: "drop (Suc i - Suc j) (take (Suc i) tx) = drop (i - j) (take i tx) @ [tx ! i]"
    using i by (simp add: take_Suc_conv_app_nth)
  show ?case
  proof (cases "tx ! i = pt ! j")
    case True
    then have "dp_spec tx pt (Suc i) (Suc j) = 0 \<longleftrightarrow> dp_spec tx pt i j = 0"
      by simp
    also have "\<dots> \<longleftrightarrow> j \<le> i \<and> take j pt = drop (i - j) (take i tx)"
      using 3 True by simp
    finally show ?thesis
      unfolding tp tt using True by simp
  next
    case False
    have "0 < dp_spec tx pt (Suc i) (Suc j)"
      using False dp_spec_nonneg [of tx pt i j] dp_spec_nonneg [of tx pt "Suc i" j]
        dp_spec_nonneg [of tx pt i "Suc j"]
      by simp
    then show ?thesis
      unfolding tp tt using False by simp
  qed
qed

lemma substring_window:
  "(\<exists>i. length pattern \<le> i \<and> i \<le> length text
        \<and> pattern = drop (i - length pattern) (take i text))
   \<longleftrightarrow> (\<exists>pre suf. text = pre @ pattern @ suf)"
proof
  assume "\<exists>i. length pattern \<le> i \<and> i \<le> length text
        \<and> pattern = drop (i - length pattern) (take i text)"
  then obtain i where i: "length pattern \<le> i" "i \<le> length text"
    "pattern = drop (i - length pattern) (take i text)"
    by blast
  have "text = (take (i - length pattern) (take i text) @ drop (i - length pattern) (take i text))
      @ drop i text"
    by (simp only: append_take_drop_id)
  then have "text = take (i - length pattern) (take i text) @ pattern @ drop i text"
    using i(3) by simp
  then show "\<exists>pre suf. text = pre @ pattern @ suf"
    by blast
next
  assume "\<exists>pre suf. text = pre @ pattern @ suf"
  then obtain pre suf where t: "text = pre @ pattern @ suf"
    by blast
  have "pattern = drop (length pre + length pattern - length pattern) (take (length pre + length pattern) text)"
    unfolding t by simp
  moreover have "length pre + length pattern \<le> length text"
    unfolding t by simp
  ultimately show "\<exists>i. length pattern \<le> i \<and> i \<le> length text
        \<and> pattern = drop (i - length pattern) (take i text)"
    by (intro exI [where x = "length pre + length pattern"]) simp
qed

text \<open>
  Claim C4, for texts and patterns of fewer than \<open>2^31 - 1\<close> symbols.
  \<^verbatim>\<open>approximateMatch\<close> returns a boolean, which is true exactly when the table of the
  specification (base cases \<open>dp[0][j] = j\<close> and \<open>dp[i][0] = 0\<close>, and the stated
  recurrence) has \<open>min\<close> over \<open>i\<close> in \<open>[|pattern|, |text|]\<close> of \<open>dp[i][|pattern|]\<close> at most
  \<open>maxErrors\<close>, the range being non-empty; the table that the code fills holds the
  specification's value in every cell.
\<close>

theorem approximateMatch_table:
  assumes "length text < 2 ^ 31 - 1" "length pattern < 2 ^ 31 - 1"
  shows "approximateMatch text pattern maxErrors =
      Inr (length pattern \<le> length text
           \<and> Min ((\<lambda>i. dp_spec text pattern i (length pattern)) ` {length pattern..length text})
               \<le> maxErrors)
   \<and> (\<forall>i\<le>length text. \<forall>j\<le>length pattern.
         dp_table text pattern (length text) (length pattern) ! i ! j = dp_spec text pattern i j)"
proof -
  let ?A = "(\<lambda>i. dp_spec text pattern i (length pattern)) ` {length pattern..length text}"
  have "(Min ?A \<le> maxErrors) = (\<exists>a\<in>?A. a \<le> maxErrors)" if "length pattern \<le> length text"
    using that by (intro Min_le_iff) auto
  then have "(Min ?A \<le> maxErrors) =
      (\<exists>i. length pattern \<le> i \<and> i \<le> length text \<and> dp_spec text pattern i (length pattern) \<le> maxErrors)"
    if "length pattern \<le> length text"
    using that by (simp add: Bex_def image_iff) blast
  moreover have "length pattern \<le> length text"
    if "length pattern \<le> i" "i \<le> length text" for i
    using that by simp
  ultimately have "(length pattern \<le> length text \<and> Min ?A \<le> maxErrors) \<longleftrightarrow>
     (\<exists>i. length pattern \<le> i \<and> i \<le> length text \<and> dp_spec text pattern i (length pattern) \<le> maxErrors)"
    by blast
  then show ?thesis
    by (simp add: approximateMatch_spec [OF assms] dp_table_spec)
qed

theorem approximateMatch_table_witness:
  "length ''abcde'' < 2 ^ 31 - 1 \<and> length ''xcd'' < 2 ^ 31 - 1
   \<and> approximateMatch ''abcde'' ''xcd'' 1 = Inr True
   \<and> length ''xcd'' \<le> length ''abcde''
   \<and> Min ((\<lambda>i. dp_spec ''abcde'' ''xcd'' i (length ''xcd'')) ` {length ''xcd''..length ''abcde''}) \<le> 1
   \<and> approximateMatch ''abcde'' ''xyz'' 1 = Inr False
   \<and> \<not> Min ((\<lambda>i. dp_spec ''abcde'' ''xyz'' i (length ''xyz'')) ` {length ''xyz''..length ''abcde''}) \<le> 1
   \<and> dp_table ''abcde'' ''xcd'' (length ''abcde'') (length ''xcd'') ! 4 ! 3
       = dp_spec ''abcde'' ''xcd'' 4 3"
proof -
  have t: "length ''abcde'' < 2 ^ 31 - 1"
    by simp
  have p: "length ''xcd'' < 2 ^ 31 - 1" "length ''xyz'' < 2 ^ 31 - 1"
    by simp_all
  have a: "approximateMatch ''abcde'' ''xcd'' 1 = Inr True"
    by code_simp
  have b: "approximateMatch ''abcde'' ''xyz'' 1 = Inr False"
    by code_simp
  show ?thesis
    using approximateMatch_table [OF t p(1), of 1] approximateMatch_table [OF t p(2), of 1] a b
    by simp
qed

text \<open>
  Claim C4 as stated, for every text and pattern, fails on a text of \<open>2^32\<close> symbols
  \<open>a\<close> and the pattern \<open>a\<close>: the size of the text narrows to \<open>n = 0\<close>, the final scan
  runs over the empty range from \<open>1\<close> to \<open>0\<close> and the answer is false, while the table of
  the specification has the cell \<open>dp[1][1] = 0\<close> in the range.
\<close>

theorem approximateMatch_table_counterexample:
  "approximateMatch (replicate (2 ^ 32) (CHR ''a'')) [CHR ''a''] 0 = Inr False
   \<and> length [CHR ''a''] \<le> length (replicate (2 ^ 32) (CHR ''a''))
   \<and> Min ((\<lambda>i. dp_spec (replicate (2 ^ 32) (CHR ''a'')) [CHR ''a''] i (length [CHR ''a'']))
           ` {length [CHR ''a'']..length (replicate (2 ^ 32) (CHR ''a''))}) \<le> 0"
proof -
  have l: "length (replicate (2 ^ 32) (CHR ''a'')) = 2 ^ 32"
    by (rule length_replicate)
  have p: "0 < length (replicate (2 ^ 32) (CHR ''a''))"
    unfolding l by simp
  have "(0::nat) < 2 ^ 32"
    by simp
  then have h: "replicate (2 ^ 32) (CHR ''a'') ! 0 = CHR ''a''"
    by (rule nth_replicate)
  have "approximateMatch (replicate (2 ^ 32) (CHR ''a'')) [CHR ''a''] 0 = Inr False"
    using l by (rule approximateMatch_text_wrapped) simp
  moreover have "length [CHR ''a''] \<le> length (replicate (2 ^ 32) (CHR ''a''))"
    unfolding l by simp
  moreover have "Min ((\<lambda>i. dp_spec (replicate (2 ^ 32) (CHR ''a'')) [CHR ''a''] i (length [CHR ''a'']))
           ` {length [CHR ''a'']..length (replicate (2 ^ 32) (CHR ''a''))}) \<le> 0"
    using p h by (rule dp_spec_first_cell)
  ultimately show ?thesis
    by blast
qed

text \<open>
  Claim C7, for texts and patterns of fewer than \<open>2^31 - 1\<close> symbols. With an error
  budget of \<open>0\<close>, \<^verbatim>\<open>approximateMatch\<close> returns a boolean, which is true exactly when the
  pattern occurs in the text as a contiguous substring.
\<close>

theorem approximateMatch_zero:
  assumes "length text < 2 ^ 31 - 1" "length pattern < 2 ^ 31 - 1"
  shows "approximateMatch text pattern 0 = Inr (\<exists>pre suf. text = pre @ pattern @ suf)"
proof -
  have "dp_spec text pattern i (length pattern) \<le> 0 \<longleftrightarrow>
      pattern = drop (i - length pattern) (take i text)"
    if "length pattern \<le> i" "i \<le> length text" for i
    using that dp_spec_zero [of i "text" "length pattern" pattern]
      dp_spec_nonneg [of "text" pattern i "length pattern"]
    by auto
  then have "(\<exists>i. length pattern \<le> i \<and> i \<le> length text
        \<and> dp_spec text pattern i (length pattern) \<le> 0) \<longleftrightarrow>
      (\<exists>i. length pattern \<le> i \<and> i \<le> length text
        \<and> pattern = drop (i - length pattern) (take i text))"
    by blast
  then show ?thesis
    unfolding approximateMatch_spec [OF assms] substring_window by simp
qed

theorem approximateMatch_zero_witness:
  "length ''abcde'' < 2 ^ 31 - 1 \<and> length ''bcd'' < 2 ^ 31 - 1
   \<and> approximateMatch ''abcde'' ''bcd'' 0 = Inr True \<and> ''abcde'' = ''a'' @ ''bcd'' @ ''e''
   \<and> approximateMatch ''abcde'' ''bd'' 0 = Inr False
   \<and> approximateMatch ''abc'' [] 0 = Inr True"
proof -
  have t: "length ''abcde'' < 2 ^ 31 - 1" and p: "length ''bcd'' < 2 ^ 31 - 1"
    by simp_all
  have e: "''abcde'' = ''a'' @ ''bcd'' @ ''e''"
    by simp
  then have "\<exists>pre suf. ''abcde'' = pre @ ''bcd'' @ suf"
    by blast
  then have "approximateMatch ''abcde'' ''bcd'' 0 = Inr True"
    using approximateMatch_zero [OF t p] by (simp only:)
  moreover have "approximateMatch ''abcde'' ''bd'' 0 = Inr False"
    by code_simp
  moreover have "approximateMatch ''abc'' [] 0 = Inr True"
    by code_simp
  ultimately show ?thesis
    using t p e by blast
qed

text \<open>
  Claim C7 as stated, for every text and pattern, fails on a text of \<open>2^32\<close> symbols
  \<open>a\<close> and the pattern \<open>a\<close>: the pattern is the first symbol of the text, and the
  answer is false, because the size of the text narrows to \<open>0\<close>.
\<close>

theorem approximateMatch_zero_counterexample:
  "approximateMatch (replicate (2 ^ 32) (CHR ''a'')) [CHR ''a''] 0 = Inr False
   \<and> replicate (2 ^ 32) (CHR ''a'') = [] @ [CHR ''a''] @ replicate (2 ^ 32 - 1) (CHR ''a'')"
proof -
  have l: "length (replicate (2 ^ 32) (CHR ''a'')) = 2 ^ 32"
    by (rule length_replicate)
  have p: "(0::nat) < 2 ^ 32"
    by simp
  have "approximateMatch (replicate (2 ^ 32) (CHR ''a'')) [CHR ''a''] 0 = Inr False"
    using l by (rule approximateMatch_text_wrapped) simp
  moreover have "replicate (2 ^ 32) (CHR ''a'') = [] @ [CHR ''a''] @ replicate (2 ^ 32 - 1) (CHR ''a'')"
    using p by (rule replicate_head)
  ultimately show ?thesis
    by blast
qed

text \<open>
  Claim C10, for patterns of fewer than \<open>2^31 - 1\<close> symbols. When the pattern is
  strictly longer than the text, \<^verbatim>\<open>approximateMatch\<close> returns false for every error
  budget: the final scan runs over \<open>i\<close> from \<open>|pattern|\<close> to \<open>|text|\<close>, an empty range.
\<close>

theorem approximateMatch_longer_pattern:
  assumes "length text < length pattern" "length pattern < 2 ^ 31 - 1"
  shows "approximateMatch text pattern maxErrors = Inr False"
proof -
  have "length text < 2 ^ 31 - 1"
    using assms by simp
  then show ?thesis
    using assms by (simp add: approximateMatch_spec)
qed

theorem approximateMatch_longer_pattern_witness:
  "length ''ab'' < length ''abc'' \<and> length ''abc'' < 2 ^ 31 - 1
   \<and> approximateMatch ''ab'' ''abc'' 1000 = Inr False"
proof -
  have h: "length ''ab'' < length ''abc''" and b: "length ''abc'' < 2 ^ 31 - 1"
    by simp_all
  show ?thesis
    using h b approximateMatch_longer_pattern [OF h b, of 1000] by simp
qed

text \<open>
  Claim C10 as stated, for every pattern longer than the text, fails on the text \<open>x\<close>
  and a pattern of \<open>2^32\<close> symbols \<open>a\<close> with the budget \<open>1\<close>: the size of the pattern
  narrows to \<open>m = 0\<close>, the scan starts at \<open>dp[0][0] = 0\<close> and the answer is true.
\<close>

theorem approximateMatch_longer_pattern_counterexample:
  "length ''x'' < length (replicate (2 ^ 32) (CHR ''a''))
   \<and> approximateMatch ''x'' (replicate (2 ^ 32) (CHR ''a'')) 1 = Inr True"
proof -
  have l: "length (replicate (2 ^ 32) (CHR ''a'')) = 2 ^ 32"
    by (rule length_replicate)
  have "length ''x'' < length (replicate (2 ^ 32) (CHR ''a''))"
    unfolding l by simp
  moreover have "approximateMatch ''x'' (replicate (2 ^ 32) (CHR ''a'')) 1 = Inr True"
    by (rule approximateMatch_pattern_wrapped [OF _ l]) simp_all
  ultimately show ?thesis
    by blast
qed

subsection \<open>The recognizer of \<open>a^n b^n\<close>\<close>

declare push_phase.simps [simp del] pop_phase.simps [simp del]

lemma push_phase_run:
  assumes "0 \<le> i" "i \<le> INT_MAX"
  shows "push_phase input i st =
     (if i + int (length (takeWhile (\<lambda>c. c = CHR ''a'') (drop (nat i) input))) \<le> INT_MAX
      then Inr (i + int (length (takeWhile (\<lambda>c. c = CHR ''a'') (drop (nat i) input))),
            replicate (length (takeWhile (\<lambda>c. c = CHR ''a'') (drop (nat i) input))) (CHR ''A'') @ st)
      else Inl Undefined_behaviour)"
  using assms
proof (induction input i st rule: push_phase.induct)
  case (1 input i st)
  show ?case
  proof (cases "0 \<le> i \<and> nat i < length input \<and> input ! nat i = CHR ''a''")
    case True
    then have d: "drop (nat i) input = CHR ''a'' # drop (Suc (nat i)) input"
      by (metis Cons_nth_drop_Suc)
    have n: "nat (i + 1) = Suc (nat i)"
      using True by arith
    show ?thesis
    proof (cases "i = INT_MAX")
      case max: True
      have "0 < length (takeWhile (\<lambda>c. c = CHR ''a'') (drop (nat i) input))"
        by (simp add: d)
      then have "\<not> i + int (length (takeWhile (\<lambda>c. c = CHR ''a'') (drop (nat i) input))) \<le> INT_MAX"
        using max by simp
      moreover have "push_phase input i st = Inl Undefined_behaviour"
        using True max by (subst push_phase.simps) simp
      ultimately show ?thesis
        by (simp only: if_False)
    next
      case False
      then have "0 \<le> i + 1" "i + 1 \<le> INT_MAX"
        using "1.prems" by simp_all
      from "1.IH" [OF True False this] show ?thesis
        using True False
        by (subst push_phase.simps) (simp add: d n replicate_app_Cons_same add.assoc)
    qed
  next
    case False
    then have "takeWhile (\<lambda>c. c = CHR ''a'') (drop (nat i) input) = []"
      using "1.prems"(1)
      by (cases "nat i < length input") (simp_all add: Cons_nth_drop_Suc [symmetric])
    then show ?thesis
      using False "1.prems"(2) by (subst push_phase.simps) auto
  qed
qed

lemma pop_phase_run:
  assumes "0 \<le> i" "i \<le> INT_MAX"
  shows "pop_phase input i st =
     (if length st < length (takeWhile (\<lambda>c. c = CHR ''b'') (drop (nat i) input))
      then (if i + int (length st) \<le> INT_MAX then Inr None else Inl Undefined_behaviour)
      else (if i + int (length (takeWhile (\<lambda>c. c = CHR ''b'') (drop (nat i) input))) \<le> INT_MAX
            then Inr (Some (i + int (length (takeWhile (\<lambda>c. c = CHR ''b'') (drop (nat i) input))),
                       drop (length (takeWhile (\<lambda>c. c = CHR ''b'') (drop (nat i) input))) st))
            else Inl Undefined_behaviour))"
  using assms
proof (induction input i st rule: pop_phase.induct)
  case (1 input i st)
  show ?case
  proof (cases "0 \<le> i \<and> nat i < length input \<and> input ! nat i = CHR ''b''")
    case True
    then have d: "drop (nat i) input = CHR ''b'' # drop (Suc (nat i)) input"
      by (metis Cons_nth_drop_Suc)
    have n: "nat (i + 1) = Suc (nat i)"
      using True by arith
    show ?thesis
    proof (cases st)
      case Nil
      then show ?thesis
        using True "1.prems"(2) by (subst pop_phase.simps) (simp add: d)
    next
      case (Cons x xs)
      then have ne: "st \<noteq> []" by simp
      show ?thesis
      proof (cases "i = INT_MAX")
        case max: True
        have "0 < length (takeWhile (\<lambda>c. c = CHR ''b'') (drop (nat i) input))"
          by (simp add: d)
        then have "\<not> i + int (length (takeWhile (\<lambda>c. c = CHR ''b'') (drop (nat i) input))) \<le> INT_MAX"
          "\<not> i + int (length st) \<le> INT_MAX"
          using max Cons by simp_all
        moreover have "pop_phase input i st = Inl Undefined_behaviour"
          using True max Cons by (subst pop_phase.simps) simp
        ultimately show ?thesis
          by (simp only: if_False if_cancel)
      next
        case False
        then have "0 \<le> i + 1" "i + 1 \<le> INT_MAX"
          using "1.prems" by simp_all
        from "1.IH" [OF True ne False this] show ?thesis
          using True False Cons
          by (subst pop_phase.simps) (simp add: d n add.assoc)
      qed
    qed
  next
    case False
    then have "takeWhile (\<lambda>c. c = CHR ''b'') (drop (nat i) input) = []"
      using "1.prems"(1)
      by (cases "nat i < length input") (simp_all add: Cons_nth_drop_Suc [symmetric])
    then show ?thesis
      using False "1.prems"(2) by (subst pop_phase.simps) auto
  qed
qed

lemma PDA_simulate_counts:
  fixes input :: string
  defines "ka \<equiv> length (takeWhile (\<lambda>c. c = CHR ''a'') input)"
    and "kb \<equiv> length (takeWhile (\<lambda>c. c = CHR ''b'') (dropWhile (\<lambda>c. c = CHR ''a'') input))"
  shows "PDA_simulate input =
     (if INT_MAX < int ka then Inl Undefined_behaviour
      else if ka < kb
        then (if 2 * int ka \<le> INT_MAX then Inr False else Inl Undefined_behaviour)
      else if int ka + int kb \<le> INT_MAX
        then Inr (ka = kb \<and> 2 * ka = length input)
      else Inl Undefined_behaviour)"
proof (cases "INT_MAX < int ka")
  case True
  have "push_phase input 0 [] = Inl Undefined_behaviour"
    using True by (subst push_phase_run) (simp_all add: INT_MAX_def ka_def)
  then show ?thesis
    using True by (simp add: PDA_simulate_def)
next
  case False
  then have le: "int ka \<le> INT_MAX"
    by simp
  have p: "push_phase input 0 [] = Inr (int ka, replicate ka (CHR ''A''))"
    using le by (subst push_phase_run) (simp_all add: INT_MAX_def ka_def)
  have d: "drop ka input = dropWhile (\<lambda>c. c = CHR ''a'') input"
    by (simp add: dropWhile_eq_drop ka_def)
  have q: "pop_phase input (int ka) (replicate ka (CHR ''A'')) =
      (if ka < kb then (if int ka + int ka \<le> INT_MAX then Inr None else Inl Undefined_behaviour)
       else (if int ka + int kb \<le> INT_MAX
             then Inr (Some (int ka + int kb, replicate (ka - kb) (CHR ''A'')))
             else Inl Undefined_behaviour))"
    using le by (subst pop_phase_run) (simp_all add: d kb_def)
  have e: "(int ka + int kb = int (length input) \<and> ka - kb = 0) = (ka = kb \<and> 2 * ka = length input)"
    if "\<not> ka < kb"
    using that by auto
  show ?thesis
    using False e by (simp add: PDA_simulate_def p q)
qed

lemma takeWhile_all:
  assumes "length (takeWhile P xs) = length xs"
  shows "takeWhile P xs = xs"
proof -
  have "length (takeWhile P xs @ dropWhile P xs) = length xs"
    by (simp only: takeWhile_dropWhile_id)
  then have "length (takeWhile P xs) + length (dropWhile P xs) = length xs"
    by (simp only: length_append)
  then have "length (dropWhile P xs) = 0"
    using assms by arith
  then have "dropWhile P xs = []"
    by (simp only: length_0_conv)
  then have "takeWhile P xs @ [] = xs"
    using takeWhile_dropWhile_id [of P xs] by (simp only:)
  then show ?thesis by (simp only: append_Nil2)
qed

lemma takeWhile_replicate':
  "takeWhile (\<lambda>c. c = x) xs = replicate (length (takeWhile (\<lambda>c. c = x) xs)) x"
proof (rule replicate_length_same [symmetric])
  show "\<forall>y\<in>set (takeWhile (\<lambda>c. c = x) xs). y = x"
    using set_takeWhileD [of _ "\<lambda>c. c = x" xs] by blast
qed

lemma dropWhile_anbn:
  "dropWhile (\<lambda>c. c = CHR ''a'') (replicate n (CHR ''a'') @ replicate n (CHR ''b''))
     = replicate n (CHR ''b'')"
proof -
  have "dropWhile (\<lambda>c. c = CHR ''a'') (replicate n (CHR ''a'') @ replicate n (CHR ''b''))
      = dropWhile (\<lambda>c. c = CHR ''a'') (replicate n (CHR ''b''))"
    by (rule dropWhile_append2) simp
  also have "\<dots> = replicate n (CHR ''b'')"
    by (cases n) simp_all
  finally show ?thesis .
qed

lemma takeWhile_anbn:
  "takeWhile (\<lambda>c. c = CHR ''a'') (replicate n (CHR ''a'') @ replicate n (CHR ''b''))
     = replicate n (CHR ''a'')"
proof -
  have "takeWhile (\<lambda>c. c = CHR ''a'') (replicate n (CHR ''a'') @ replicate n (CHR ''b''))
      = replicate n (CHR ''a'') @ takeWhile (\<lambda>c. c = CHR ''a'') (replicate n (CHR ''b''))"
    by (rule takeWhile_append2) simp
  also have "takeWhile (\<lambda>c. c = CHR ''a'') (replicate n (CHR ''b'')) = []"
    by (cases n) simp_all
  finally show ?thesis by simp
qed

lemma anbn_counts:
  "(length (takeWhile (\<lambda>c. c = CHR ''a'') input)
       = length (takeWhile (\<lambda>c. c = CHR ''b'') (dropWhile (\<lambda>c. c = CHR ''a'') input))
     \<and> 2 * length (takeWhile (\<lambda>c. c = CHR ''a'') input) = length input)
   \<longleftrightarrow> (\<exists>n. input = replicate n (CHR ''a'') @ replicate n (CHR ''b''))"
proof
  define as where "as = takeWhile (\<lambda>c. c = CHR ''a'') input"
  define rest where "rest = dropWhile (\<lambda>c. c = CHR ''a'') input"
  define bs where "bs = takeWhile (\<lambda>c. c = CHR ''b'') rest"
  assume "length (takeWhile (\<lambda>c. c = CHR ''a'') input)
       = length (takeWhile (\<lambda>c. c = CHR ''b'') (dropWhile (\<lambda>c. c = CHR ''a'') input))
     \<and> 2 * length (takeWhile (\<lambda>c. c = CHR ''a'') input) = length input"
  then have h: "length as = length bs" "2 * length as = length input"
    by (simp_all add: as_def bs_def rest_def)
  have i: "input = as @ rest"
    by (simp add: as_def rest_def)
  then have "length input = length as + length rest"
    by (simp only: length_append)
  then have "length bs = length rest"
    using h by arith
  then have r: "bs = rest"
    unfolding bs_def by (rule takeWhile_all)
  have b: "bs = replicate (length bs) (CHR ''b'')"
    unfolding bs_def by (rule takeWhile_replicate')
  have "rest = replicate (length as) (CHR ''b'')"
    using b r h(1) by metis
  moreover have "as = replicate (length as) (CHR ''a'')"
    unfolding as_def by (rule takeWhile_replicate')
  ultimately have "input = replicate (length as) (CHR ''a'') @ replicate (length as) (CHR ''b'')"
    using i by metis
  then show "\<exists>n. input = replicate n (CHR ''a'') @ replicate n (CHR ''b'')"
    by (rule exI)
next
  assume "\<exists>n. input = replicate n (CHR ''a'') @ replicate n (CHR ''b'')"
  then obtain n where n: "input = replicate n (CHR ''a'') @ replicate n (CHR ''b'')"
    by blast
  have a: "takeWhile (\<lambda>c. c = CHR ''a'') input = replicate n (CHR ''a'')"
    unfolding n by (rule takeWhile_anbn)
  have r: "dropWhile (\<lambda>c. c = CHR ''a'') input = replicate n (CHR ''b'')"
    unfolding n by (rule dropWhile_anbn)
  show "length (takeWhile (\<lambda>c. c = CHR ''a'') input)
       = length (takeWhile (\<lambda>c. c = CHR ''b'') (dropWhile (\<lambda>c. c = CHR ''a'') input))
     \<and> 2 * length (takeWhile (\<lambda>c. c = CHR ''a'') input) = length input"
    unfolding a r by (simp add: n)
qed

lemma run_lengths_le:
  "length (takeWhile P xs) + length (takeWhile Q (dropWhile P xs)) \<le> length xs"
proof -
  have "length (takeWhile P xs @ dropWhile P xs) = length xs"
    by (simp only: takeWhile_dropWhile_id)
  then have "length (takeWhile P xs) + length (dropWhile P xs) = length xs"
    by (simp only: length_append)
  moreover have "length (takeWhile Q (dropWhile P xs)) \<le> length (dropWhile P xs)"
    by (rule length_takeWhile_le)
  ultimately show ?thesis
    by arith
qed

lemma PDA_simulate_in_range:
  assumes "length input < 2 ^ 31"
  shows "PDA_simulate input =
     Inr (length (takeWhile (\<lambda>c. c = CHR ''a'') input)
            = length (takeWhile (\<lambda>c. c = CHR ''b'') (dropWhile (\<lambda>c. c = CHR ''a'') input))
          \<and> 2 * length (takeWhile (\<lambda>c. c = CHR ''a'') input) = length input)"
proof -
  define ka where "ka = length (takeWhile (\<lambda>c. c = CHR ''a'') input)"
  define kb where "kb = length (takeWhile (\<lambda>c. c = CHR ''b'') (dropWhile (\<lambda>c. c = CHR ''a'') input))"
  have "ka + kb \<le> length input"
    unfolding ka_def kb_def by (rule run_lengths_le)
  then have b: "int ka + int kb \<le> INT_MAX" "\<not> INT_MAX < int ka"
    using assms by (simp_all add: INT_MAX_def)
  have c: "2 * int ka \<le> INT_MAX" if "ka < kb"
    using that b(1) by simp
  have "PDA_simulate input = Inr (ka = kb \<and> 2 * ka = length input)"
    using b c unfolding ka_def kb_def by (subst PDA_simulate_counts) auto
  then show ?thesis
    unfolding ka_def kb_def .
qed

lemma PDA_simulate_anbn:
  "PDA_simulate (replicate n (CHR ''a'') @ replicate n (CHR ''b'')) =
     (if 2 * int n \<le> INT_MAX then Inr True else Inl Undefined_behaviour)"
proof -
  have b: "takeWhile (\<lambda>c. c = CHR ''b'') (replicate n (CHR ''b'')) = replicate n (CHR ''b'')"
    by (simp add: takeWhile_replicate)
  show ?thesis
    by (subst PDA_simulate_counts) (simp add: takeWhile_anbn dropWhile_anbn b INT_MAX_def)
qed

text \<open>
  Claim C5, for inputs of fewer than \<open>2^31\<close> symbols. The recognizer returns a
  boolean, which is true iff the input is \<open>a^n b^n\<close> for some \<open>n \<ge> 0\<close>. In particular it
  rejects when the leading run of \<open>a\<close> is followed by more \<open>b\<close> than there were \<open>a\<close> (a
  \<open>b\<close> seen with the stack empty), and when a symbol other than \<open>b\<close> stands anywhere
  after the leading run of \<open>a\<close> (the input is not consumed entirely).
\<close>

theorem PDA_accepts_anbn:
  assumes "length input < 2 ^ 31"
  shows "PDA_simulate input = Inr (\<exists>n. input = replicate n (CHR ''a'') @ replicate n (CHR ''b''))
   \<and> (length (takeWhile (\<lambda>c. c = CHR ''a'') input)
         < length (takeWhile (\<lambda>c. c = CHR ''b'') (dropWhile (\<lambda>c. c = CHR ''a'') input))
       \<longrightarrow> PDA_simulate input = Inr False)
   \<and> ((\<exists>c \<in> set (dropWhile (\<lambda>c. c = CHR ''a'') input). c \<noteq> CHR ''b'')
       \<longrightarrow> PDA_simulate input = Inr False)"
proof -
  have r: "PDA_simulate input = Inr (\<exists>n. input = replicate n (CHR ''a'') @ replicate n (CHR ''b''))"
    unfolding PDA_simulate_in_range [OF assms] anbn_counts ..
  have "\<not> (\<exists>n. input = replicate n (CHR ''a'') @ replicate n (CHR ''b''))"
    if "c \<in> set (dropWhile (\<lambda>c. c = CHR ''a'') input)" "c \<noteq> CHR ''b''" for c
  proof
    assume "\<exists>n. input = replicate n (CHR ''a'') @ replicate n (CHR ''b'')"
    then obtain n where "input = replicate n (CHR ''a'') @ replicate n (CHR ''b'')"
      by blast
    then have "dropWhile (\<lambda>c. c = CHR ''a'') input = replicate n (CHR ''b'')"
      by (simp only: dropWhile_anbn)
    then show False using that by simp
  qed
  then have "PDA_simulate input = Inr False"
    if "\<exists>c \<in> set (dropWhile (\<lambda>c. c = CHR ''a'') input). c \<noteq> CHR ''b''"
    using that r by auto
  moreover have "PDA_simulate input = Inr False"
    if "length (takeWhile (\<lambda>c. c = CHR ''a'') input)
         < length (takeWhile (\<lambda>c. c = CHR ''b'') (dropWhile (\<lambda>c. c = CHR ''a'') input))"
    using that unfolding PDA_simulate_in_range [OF assms] by simp
  ultimately show ?thesis
    using r by blast
qed

theorem PDA_accepts_anbn_witness:
  "length ''aabb'' < 2 ^ 31
   \<and> PDA_simulate [] = Inr True \<and> PDA_simulate ''aabb'' = Inr True
   \<and> PDA_simulate ''aaab'' = Inr False
   \<and> PDA_simulate ''abab'' = Inr False \<and> PDA_simulate ''aabbb'' = Inr False
   \<and> ''aabb'' = replicate 2 (CHR ''a'') @ replicate 2 (CHR ''b'')
   \<and> CHR ''a'' \<in> set (dropWhile (\<lambda>c. c = CHR ''a'') ''abab'')
   \<and> length (takeWhile (\<lambda>c. c = CHR ''a'') ''aabbb'')
         < length (takeWhile (\<lambda>c. c = CHR ''b'') (dropWhile (\<lambda>c. c = CHR ''a'') ''aabbb''))"
proof -
  have b: "length ''aabb'' < 2 ^ 31" "length ([] :: string) < 2 ^ 31"
    "length ''abab'' < 2 ^ 31" "length ''aabbb'' < 2 ^ 31"
    by simp_all
  have e: "''aabb'' = replicate 2 (CHR ''a'') @ replicate 2 (CHR ''b'')"
    by (simp add: numeral_2_eq_2)
  have z: "([] :: string) = replicate 0 (CHR ''a'') @ replicate 0 (CHR ''b'')"
    by simp
  have m: "CHR ''a'' \<in> set (dropWhile (\<lambda>c. c = CHR ''a'') ''abab'')"
    by simp
  have l: "length (takeWhile (\<lambda>c. c = CHR ''a'') ''aabbb'')
         < length (takeWhile (\<lambda>c. c = CHR ''b'') (dropWhile (\<lambda>c. c = CHR ''a'') ''aabbb''))"
    by simp
  have "\<exists>n. ''aabb'' = replicate n (CHR ''a'') @ replicate n (CHR ''b'')"
    using e by blast
  then have "PDA_simulate ''aabb'' = Inr True"
    using PDA_accepts_anbn [OF b(1)] by (simp only:)
  moreover have "\<exists>n. ([] :: string) = replicate n (CHR ''a'') @ replicate n (CHR ''b'')"
    using z by blast
  then have "PDA_simulate [] = Inr True"
    using PDA_accepts_anbn [OF b(2)] by (simp only:)
  moreover have "PDA_simulate ''abab'' = Inr False"
    using PDA_accepts_anbn [OF b(3)] m by blast
  moreover have "PDA_simulate ''aabbb'' = Inr False"
    using PDA_accepts_anbn [OF b(4)] l by blast
  moreover have "PDA_simulate ''aaab'' = Inr False"
    by code_simp
  ultimately show ?thesis
    using b(1) e m l by blast
qed

text \<open>
  Claim C5 as stated, for every input, fails on \<open>a^n b^n\<close> with \<open>n = 2^30\<close>: the input
  has \<open>2^31\<close> symbols, and reading its last symbol the recognizer increments the index
  \<^verbatim>\<open>INT_MAX\<close>, a signed overflow, so that the program does not return true (its
  behaviour is undefined).
\<close>

theorem PDA_accepts_anbn_counterexample:
  "PDA_simulate (replicate (2 ^ 30) (CHR ''a'') @ replicate (2 ^ 30) (CHR ''b''))
     = Inl Undefined_behaviour
   \<and> PDA_simulate (replicate (2 ^ 30) (CHR ''a'') @ replicate (2 ^ 30) (CHR ''b'')) \<noteq> Inr True"
proof -
  have "\<not> 2 * int (2 ^ 30) \<le> INT_MAX"
    by (simp add: INT_MAX_def)
  then have "PDA_simulate (replicate (2 ^ 30) (CHR ''a'') @ replicate (2 ^ 30) (CHR ''b''))
     = Inl Undefined_behaviour"
    unfolding PDA_simulate_anbn by (simp only: if_False)
  then show ?thesis
    by (simp only: sum.distinct simp_thms)
qed

end
